theory Spec2Isabelle
  imports
    Main
    "HOL-Library.Word"
    "HOL-Library.Sublist"
    "HOL-Library.Log_Nat"
    "HOL-Library.Signed_Division"
begin

unbundle bit_operations_syntax

section \<open>TermiStat: the embedding of \<open>termistat.cpp\<close>\<close>

text \<open>
  The program samples a handful of operating-system pseudo-files once per second and
  prints colored bars. The embedding follows the source function by function.
  \<^item> \<open>long\<close> and \<open>unsigned long long\<close> are 64-bit words (\<open>sint\<close> reads a \<open>long\<close>);
    signed overflow, undefined in C++, wraps as on the x86-64 target.
  \<^item> \<open>int\<close> values are HOL integers; the one place where the range of \<open>int\<close> decides the
    behaviour, the conversion of a \<open>float\<close> to \<open>int\<close>, checks it.
  \<^item> \<open>float\<close> is IEEE binary32 with round-to-nearest-even, written out below.
  \<^item> What is written to \<open>cout\<close> is returned as a string.
  \<^item> Undefined behaviour and exceptions that nothing catches are error values.
\<close>

datatype error =
    UndefinedConversion   \<comment> \<open>float to int, truncated value not representable\<close>
  | InvalidArgument       \<comment> \<open>\<open>std::invalid_argument\<close> thrown by \<open>stol\<close>\<close>
  | OutOfRange            \<comment> \<open>\<open>std::out_of_range\<close> thrown by \<open>stol\<close>\<close>
  | FilesystemError       \<comment> \<open>\<open>filesystem_error\<close> thrown by \<open>directory_iterator\<close>\<close>

type_synonym long = "64 word"
type_synonym ulonglong = "64 word"


subsection \<open>Binary32 arithmetic\<close>

text \<open>
  A \<open>float\<close> is a sign and a magnitude, an infinity with its sign, or a NaN (whose sign
  and payload are not modelled). The magnitude of a finite value is a non-negative
  rational; the values the operations below produce are of the form \<open>m * 2^e\<close> with
  \<open>m < 2^24\<close> and \<open>e \<ge> -149\<close>.
\<close>

datatype f32 = Finite bool rat | Infinity bool | NaN

text \<open>The real number a finite \<open>float\<close> stands for.\<close>

definition f32_val :: "f32 \<Rightarrow> rat" where
  "f32_val x = (case x of Finite s m \<Rightarrow> (if s then - m else m) | _ \<Rightarrow> 0)"

definition is_finite :: "f32 \<Rightarrow> bool" where
  "is_finite x = (case x of Finite s m \<Rightarrow> True | _ \<Rightarrow> False)"

definition f32_sign :: "f32 \<Rightarrow> bool" where
  "f32_sign x = (case x of Finite s m \<Rightarrow> s | Infinity s \<Rightarrow> s | NaN \<Rightarrow> False)"

text \<open>Nearest integer, ties to the even one.\<close>

definition round_even :: "rat \<Rightarrow> int" where
  "round_even x =
     (let f = \<lfloor>x\<rfloor>; d = x - of_int f
      in if d < 1 / 2 then f else if 1 / 2 < d then f + 1 else if even f then f else f + 1)"

text \<open>The binary exponent of a non-zero rational: \<open>2^(ilog2 x) \<le> |x| < 2^(ilog2 x + 1)\<close>.\<close>

definition ilog2 :: "rat \<Rightarrow> int" where
  "ilog2 x =
     (let (p, q) = quotient_of \<bar>x\<bar>; d = bitlen p - bitlen q
      in if 2 powi d \<le> \<bar>x\<bar> then d else d - 1)"

text \<open>
  Rounding a magnitude to binary32: 24 significant bits, the exponent of the last bit not
  below \<open>-149\<close> (subnormals), overflow to infinity.
\<close>

definition f32_round :: "bool \<Rightarrow> rat \<Rightarrow> f32" where
  "f32_round s x =
     (if x = 0 then Finite s 0
      else
        let e = max (ilog2 x - 23) (- 149);
            y = of_int (round_even (x / 2 powi e)) * 2 powi e
        in if 2 ^ 128 \<le> y then Infinity s else Finite s y)"

text \<open>Conversions from the integer types.\<close>

definition f32_of_int :: "int \<Rightarrow> f32" where
  "f32_of_int k = f32_round (k < 0) (of_int \<bar>k\<bar>)"

definition f32_of_long :: "long \<Rightarrow> f32" where
  "f32_of_long w = f32_of_int (sint w)"

definition f32_of_ulonglong :: "ulonglong \<Rightarrow> f32" where
  "f32_of_ulonglong w = f32_of_int (uint w)"

text \<open>
  Conversion to \<open>int\<close> truncates towards zero; the behaviour is undefined (\<open>None\<close>)
  when the truncated value does not fit, and for infinities and NaN.
\<close>

definition f32_to_int :: "f32 \<Rightarrow> int option" where
  "f32_to_int x =
     (case x of
        Finite s m \<Rightarrow>
          (let t = (if s then - \<lfloor>m\<rfloor> else \<lfloor>m\<rfloor>)
           in if - (2 ^ 31) \<le> t \<and> t < 2 ^ 31 then Some t else None)
      | _ \<Rightarrow> None)"

definition f32_mul :: "f32 \<Rightarrow> f32 \<Rightarrow> f32" where
  "f32_mul a b =
     (case (a, b) of
        (Finite s m, Finite t n) \<Rightarrow> f32_round (s \<noteq> t) (m * n)
      | (Finite s m, Infinity t) \<Rightarrow> (if m = 0 then NaN else Infinity (s \<noteq> t))
      | (Infinity s, Finite t n) \<Rightarrow> (if n = 0 then NaN else Infinity (s \<noteq> t))
      | (Infinity s, Infinity t) \<Rightarrow> Infinity (s \<noteq> t)
      | _ \<Rightarrow> NaN)"

text \<open>Division never traps: a zero divisor gives an infinity, or NaN for \<open>0 / 0\<close>.\<close>

definition f32_div :: "f32 \<Rightarrow> f32 \<Rightarrow> f32" where
  "f32_div a b =
     (case (a, b) of
        (Finite s m, Finite t n) \<Rightarrow>
          (if n = 0 then (if m = 0 then NaN else Infinity (s \<noteq> t))
           else f32_round (s \<noteq> t) (m / n))
      | (Finite s m, Infinity t) \<Rightarrow> Finite (s \<noteq> t) 0
      | (Infinity s, Finite t n) \<Rightarrow> Infinity (s \<noteq> t)
      | _ \<Rightarrow> NaN)"

text \<open>\<open>a < b\<close> on floats: false as soon as one side is a NaN.\<close>

definition f32_less :: "f32 \<Rightarrow> f32 \<Rightarrow> bool" where
  "f32_less a b =
     (case (a, b) of
        (Finite s m, Finite t n) \<Rightarrow> f32_val a < f32_val b
      | (Finite s m, Infinity t) \<Rightarrow> \<not> t
      | (Infinity s, Finite t n) \<Rightarrow> s
      | (Infinity s, Infinity t) \<Rightarrow> s \<and> \<not> t
      | _ \<Rightarrow> False)"

text \<open>\<open>a >= b\<close> on floats, likewise false on NaN.\<close>

definition f32_ge :: "f32 \<Rightarrow> f32 \<Rightarrow> bool" where
  "f32_ge a b = (a \<noteq> NaN \<and> b \<noteq> NaN \<and> \<not> f32_less a b)"


text \<open>
  The finite values of the type: a magnitude is a binary32 value when rounding leaves it
  as it is.
\<close>

definition is_binary32 :: "f32 \<Rightarrow> bool" where
  "is_binary32 x = (case x of Finite s m \<Rightarrow> 0 \<le> m \<and> f32_round s m = Finite s m | _ \<Rightarrow> True)"


subsection \<open>Text\<close>

definition ESC :: char where
  "ESC = CHR 0x1B"

definition NL :: char where
  "NL = CHR 0x0A"

definition isspace :: "char \<Rightarrow> bool" where
  "isspace c = (c \<in> set [CHR '' '', CHR 0x09, CHR 0x0A, CHR 0x0B, CHR 0x0C, CHR 0x0D])"


definition digit_char :: "nat \<Rightarrow> char" where
  "digit_char d = char_of (48 + d)"

fun show_nat :: "nat \<Rightarrow> string" where
  "show_nat n = (if n < 10 then [digit_char n] else show_nat (n div 10) @ [digit_char (n mod 10)])"

declare show_nat.simps [simp del]



text \<open>
  \<open>s.find(pat)\<close>: the index of the first occurrence of \<open>pat\<close> in \<open>s\<close>; \<open>None\<close> is
  \<open>string::npos\<close>.
\<close>

fun str_find :: "string \<Rightarrow> string \<Rightarrow> nat option" where
  "str_find pat [] = (if pat = [] then Some 0 else None)"
| "str_find pat (c # cs) =
     (if prefix pat (c # cs) then Some 0 else map_option Suc (str_find pat cs))"

text \<open>
  \<open>cout << fixed << setprecision(1) << x\<close>: the decimal expansion of \<open>x\<close> rounded to
  one digit after the point (ties to even, on the exact binary value), with the sign.
  A NaN is written \<open>nan\<close>; the C library puts a minus sign before it when the sign bit
  of the NaN is set, which the type does not record.
\<close>

definition fixed1 :: "f32 \<Rightarrow> string" where
  "fixed1 x =
     (case x of
        Finite s m \<Rightarrow>
          (let r = nat (round_even (m * 10))
           in (if s then ''-'' else '''') @ show_nat (r div 10) @ ''.'' @ show_nat (r mod 10))
      | Infinity s \<Rightarrow> (if s then ''-inf'' else ''inf'')
      | NaN \<Rightarrow> ''nan'')"



text \<open>\<open>stream >> word\<close> on a string stream: the next white-space separated word and the rest.\<close>

definition next_word :: "string \<Rightarrow> string \<times> string" where
  "next_word str =
     (let t = dropWhile isspace str
      in (takeWhile (\<lambda>c. \<not> isspace c) t, dropWhile (\<lambda>c. \<not> isspace c) t))"


subsection \<open>Input controller: \<open>setNonBlocking\<close>\<close>

text \<open>
  The terminal attributes of standard input (\<open>struct termios\<close>) and its file status flags
  (\<open>fcntl\<close>), together with the two static variables of the function. Standard input is
  taken to be a terminal: \<open>tcgetattr\<close>, \<open>tcsetattr\<close> and \<open>fcntl\<close> succeed (the source
  ignores what they return). The three flag constants come from the system headers; their
  values here are those of Linux, and the properties below hold for any values.
\<close>

record termios =
  c_iflag :: "32 word"
  c_oflag :: "32 word"
  c_cflag :: "32 word"
  c_lflag :: "32 word"
  c_line :: "8 word"
  c_cc :: "8 word list"
  c_ispeed :: "32 word"
  c_ospeed :: "32 word"

definition ICANON :: "32 word" where
  "ICANON = 0x2"

definition ECHO :: "32 word" where
  "ECHO = 0x8"

definition O_NONBLOCK :: "32 word" where
  "O_NONBLOCK = 0x800"

record tty_state =
  attrs :: termios          \<comment> \<open>the terminal attributes of standard input\<close>
  fl_flags :: "32 word"     \<comment> \<open>the file status flags of standard input\<close>
  oldt :: termios           \<comment> \<open>\<open>static struct termios oldt\<close>\<close>
  saved :: bool             \<comment> \<open>\<open>static bool saved\<close>\<close>

definition setNonBlocking :: "bool \<Rightarrow> tty_state \<Rightarrow> tty_state" where
  "setNonBlocking enable st =
     (if enable then
        let st1 = (if \<not> saved st then st\<lparr>oldt := attrs st, saved := True\<rparr> else st);
            newt = (oldt st1)\<lparr>c_lflag := c_lflag (oldt st1) AND NOT (ICANON OR ECHO)\<rparr>;
            flags = fl_flags st1
        in st1\<lparr>attrs := newt, fl_flags := flags OR O_NONBLOCK\<rparr>
      else if saved st then
        let flags = fl_flags st
        in st\<lparr>attrs := oldt st, fl_flags := flags AND NOT O_NONBLOCK\<rparr>
      else st)"

text \<open>A sequence of calls, first to last.\<close>

definition calls :: "bool list \<Rightarrow> tty_state \<Rightarrow> tty_state" where
  "calls es st = foldl (\<lambda>s e. setNonBlocking e s) st es"


subsection \<open>Renderer: \<open>drawProgressBar\<close> and \<open>drawTitle\<close>\<close>

datatype color = Green | Yellow | Red

fun ansi :: "color \<Rightarrow> string" where
  "ansi Green = ESC # ''[42m''"
| "ansi Yellow = ESC # ''[43m''"
| "ansi Red = ESC # ''[41m''"

text \<open>One cell of the bar: a colored block for the used part, a gray block for the rest.\<close>

datatype cell = Used color | Free

fun render_cell :: "cell \<Rightarrow> string" where
  "render_cell (Used c) = ansi c @ '' '' @ ESC # ''[0m''"
| "render_cell Free = ESC # ''[100m '' @ ESC # ''[0m''"

record bar =
  cells :: "cell list"   \<comment> \<open>the blocks printed between the brackets, left to right\<close>
  label :: string        \<comment> \<open>the number printed after the bar\<close>

definition render_bar :: "bar \<Rightarrow> string" where
  "render_bar b = ''['' @ concat (map render_cell (cells b)) @ ''] '' @ label b @ ''%''"

text \<open>The choice of the color (lines 76 to 92).\<close>

definition bar_color :: "f32 \<Rightarrow> bool \<Rightarrow> color" where
  "bar_color percent invertColors =
     (if \<not> invertColors then
        (if f32_less percent (Finite False 60) then Green
         else if f32_less percent (Finite False 85) then Yellow
         else Red)
      else
        (if f32_less percent (Finite False 30) then Red
         else if f32_less percent (Finite False 75) then Yellow
         else Green))"

text \<open>The loop \<open>for (int i = 0; i < width; ++i)\<close>, from the counter \<open>i\<close> on.\<close>

function bar_loop :: "color \<Rightarrow> int \<Rightarrow> int \<Rightarrow> int \<Rightarrow> cell list" where
  "bar_loop c pos width i =
     (if i < width then (if i < pos then Used c else Free) # bar_loop c pos width (i + 1)
      else [])"
  by pat_completeness auto
termination
  by (relation "measure (\<lambda>(c, pos, width, i). nat (width - i))") auto

declare bar_loop.simps [simp del]

text \<open>
  \<open>int pos = percent * width / 100\<close>: both integers are converted to \<open>float\<close>, the
  product and the quotient are floats, and the quotient is converted to \<open>int\<close>.
\<close>

definition bar_quotient :: "f32 \<Rightarrow> int \<Rightarrow> f32" where
  "bar_quotient percent width = f32_div (f32_mul percent (f32_of_int width)) (f32_of_int 100)"

definition bar_pos :: "f32 \<Rightarrow> int \<Rightarrow> int option" where
  "bar_pos percent width = f32_to_int (bar_quotient percent width)"

definition drawProgressBar :: "f32 \<Rightarrow> int \<Rightarrow> bool \<Rightarrow> error + bar" where
  "drawProgressBar percent width invertColors =
     (case bar_pos percent width of
        None \<Rightarrow> Inl UndefinedConversion
      | Some pos \<Rightarrow>
          Inr \<lparr>cells = bar_loop (bar_color percent invertColors) pos width 0,
               label = fixed1 percent\<rparr>)"

definition drawTitle :: "string \<Rightarrow> string" where
  "drawTitle title = ESC # ''[1;34m==== '' @ title @ '' ===='' @ ESC # ''[0m'' @ [NL]"


subsection \<open>Memory sampler: \<open>showMemory\<close>\<close>





subsection \<open>Files\<close>

text \<open>
  What the samplers see of a file that opens: the value an \<open>int\<close> variable holds after
  \<open>file >> variable\<close>, and the line \<open>getline\<close> stores. A path that cannot be opened
  has no file; a directory that cannot be iterated has no listing. The listing of a
  directory gives the paths of its entries in the order of enumeration.
\<close>

record ifstream =
  int_value :: int
  first_line :: string

record filesystem =
  open_file :: "string \<Rightarrow> ifstream option"
  list_dir :: "string \<Rightarrow> string list option"


subsection \<open>CPU sampler: the fan scan \<open>readFanRPM\<close> and the usage of \<open>showCPU\<close>\<close>







text \<open>
  The seven counters \<open>stat >> cpu >> user >> ... >> softirq\<close> leaves in the variables,
  and the two static variables of \<open>showCPU\<close>, which start at zero.
\<close>

record cpu_sample =
  user :: long
  nice :: long
  system :: long
  idle :: long
  iowait :: long
  irq :: long
  softirq :: long

record cpu_state =
  prevIdle :: long
  prevTotal :: long

definition cpu_start :: cpu_state where
  "cpu_start = \<lparr>prevIdle = 0, prevTotal = 0\<rparr>"

definition idleTime :: "cpu_sample \<Rightarrow> long" where
  "idleTime x = idle x + iowait x"

definition totalTime :: "cpu_sample \<Rightarrow> long" where
  "totalTime x = user x + nice x + system x + idleTime x + irq x + softirq x"

text \<open>The deltas against the statics left by the previous sample.\<close>

definition deltaIdle :: "cpu_state \<Rightarrow> cpu_sample \<Rightarrow> long" where
  "deltaIdle st x = idleTime x - prevIdle st"

definition deltaTotal :: "cpu_state \<Rightarrow> cpu_sample \<Rightarrow> long" where
  "deltaTotal st x = totalTime x - prevTotal st"

text \<open>Lines 195 to 212 of \<open>showCPU\<close>: the usage handed to the bar, and the new statics.\<close>

definition showCPU :: "cpu_state \<Rightarrow> cpu_sample \<Rightarrow> f32 \<times> cpu_state" where
  "showCPU st x =
     (let usage = (if deltaTotal st x \<noteq> 0
                   then f32_div
                          (f32_mul (Finite False 100)
                             (f32_of_long (deltaTotal st x - deltaIdle st x)))
                          (f32_of_long (deltaTotal st x))
                   else Finite False 0)
      in (usage, \<lparr>prevIdle = idleTime x, prevTotal = totalTime x\<rparr>))"

text \<open>The usages reported for a run of samples, the statics threaded through.\<close>

fun cpu_run :: "cpu_state \<Rightarrow> cpu_sample list \<Rightarrow> f32 list" where
  "cpu_run st [] = []"
| "cpu_run st (x # xs) = fst (showCPU st x) # cpu_run (snd (showCPU st x)) xs"


subsection \<open>Battery sampler: \<open>readBattery\<close> and \<open>showBattery\<close>\<close>

record BatteryInfo =
  capacity :: int
  status :: string
  available :: bool

definition readBattery :: "filesystem \<Rightarrow> BatteryInfo" where
  "readBattery fs =
     (let info = \<lparr>capacity = - 1, status = ''Unknown'', available = False\<rparr>;
          basePath = ''/sys/class/power_supply/'';
          batteryPath = basePath @ ''BAT0/''
      in case (open_file fs (batteryPath @ ''capacity''), open_file fs (batteryPath @ ''status'')) of
           (Some capFile, Some statusFile) \<Rightarrow>
             info\<lparr>capacity := int_value capFile, status := first_line statusFile,
                  available := True\<rparr>
         | _ \<Rightarrow> info)"

definition showBattery :: "filesystem \<Rightarrow> error + string" where
  "showBattery fs =
     (let bat = readBattery fs
      in if available bat then
           (case drawProgressBar (f32_of_int (capacity bat)) 40 True of
              Inl e \<Rightarrow> Inl e
            | Inr b \<Rightarrow>
                Inr (drawTitle ''Battery'' @ status bat @ [NL] @ render_bar b @ [NL, NL]))
         else Inr (drawTitle ''Battery'' @ ''Battery info not available'' @ [NL, NL]))"


subsection \<open>Disk sampler: \<open>showDisk\<close>\<close>

record statvfs_t =
  f_blocks :: "64 word"
  f_bfree :: "64 word"
  f_frsize :: "64 word"

text \<open>The second word of a line of \<open>/proc/mounts\<close>: \<open>iss >> device >> mountpoint\<close>.\<close>

definition mountpoint_of :: "string \<Rightarrow> string" where
  "mountpoint_of line = fst (next_word (snd (next_word line)))"

text \<open>The test of line 285, whose \<open>continue\<close> skips the entry.\<close>

definition disk_skip :: "string \<Rightarrow> bool" where
  "disk_skip mountpoint =
     (str_find ''/dev'' mountpoint \<noteq> None \<or> str_find ''/sys'' mountpoint \<noteq> None)"

text \<open>Lines 290 to 293.\<close>

definition disk_percent :: "statvfs_t \<Rightarrow> f32" where
  "disk_percent stat =
     (let total = f_blocks stat * f_frsize stat;
          free = f_bfree stat * f_frsize stat;
          used = total - free
      in f32_div (f32_mul (Finite False 100) (f32_of_ulonglong used)) (f32_of_ulonglong total))"

text \<open>
  What one entry prints; \<open>statvfs\<close> gives the statistics of the mountpoints it succeeds on.
\<close>

definition disk_entry :: "(string \<Rightarrow> statvfs_t option) \<Rightarrow> string \<Rightarrow> string" where
  "disk_entry statvfs line =
     (let mountpoint = mountpoint_of line
      in if disk_skip mountpoint then []
         else
           (case statvfs mountpoint of
              None \<Rightarrow> []
            | Some stat \<Rightarrow>
                (let total = f_blocks stat * f_frsize stat;
                     free = f_bfree stat * f_frsize stat;
                     used = total - free;
                     percent = disk_percent stat
                 in mountpoint @ '': '' @ show_nat (unat (used div (1024 * 1024))) @ '' MB / '' @
                    show_nat (unat (total div (1024 * 1024))) @ '' MB ('' @
                    fixed1 percent @ ''%)'' @ [NL])))"

definition showDisk :: "(string \<Rightarrow> statvfs_t option) \<Rightarrow> string list \<Rightarrow> string" where
  "showDisk statvfs mounts =
     drawTitle ''Disks'' @ concat (map (disk_entry statvfs) mounts) @ [NL]"

subsection \<open>Example environments\<close>

text \<open>A machine with no \<open>BAT0/capacity\<close>, and one with a battery at 80 percent.\<close>

definition fs_without_battery :: filesystem where
  "fs_without_battery =
     \<lparr>open_file = (\<lambda>p. if p = ''/sys/class/power_supply/BAT0/status''
                         then Some \<lparr>int_value = 0, first_line = ''Full''\<rparr> else None),
      list_dir = (\<lambda>p. None)\<rparr>"

definition fs_with_battery :: filesystem where
  "fs_with_battery =
     \<lparr>open_file = (\<lambda>p. if p = ''/sys/class/power_supply/BAT0/status''
                         then Some \<lparr>int_value = 0, first_line = ''Charging''\<rparr>
                       else if p = ''/sys/class/power_supply/BAT0/capacity''
                         then Some \<lparr>int_value = 80, first_line = ''80''\<rparr>
                       else None),
      list_dir = (\<lambda>p. None)\<rparr>"


text \<open>
  A terminal in canonical mode with echo, and a standard input whose file status flags
  are \<open>O_RDWR\<close> alone, or \<open>O_RDWR | O_NONBLOCK\<close>.
\<close>

definition cooked :: termios where
  "cooked = \<lparr>c_iflag = 0x500, c_oflag = 0x5, c_cflag = 0xBF, c_lflag = 0x8A3B, c_line = 0,
             c_cc = [], c_ispeed = 0xF, c_ospeed = 0xF\<rparr>"

definition tty_blocking :: tty_state where
  "tty_blocking = \<lparr>attrs = cooked, fl_flags = 0x2,
     oldt = \<lparr>c_iflag = 0, c_oflag = 0, c_cflag = 0, c_lflag = 0, c_line = 0, c_cc = [],
              c_ispeed = 0, c_ospeed = 0\<rparr>,
     saved = False\<rparr>"

definition tty_nonblocking :: tty_state where
  "tty_nonblocking = tty_blocking\<lparr>fl_flags := 0x802\<rparr>"


text \<open>
  Counters of \<open>/proc/stat\<close>: two consecutive samples with \<open>idleTime\<close> 100 then 150 and
  \<open>totalTime\<close> 200 then 400; a first sample that is half busy; one with idle time
  only; one with all counters zero.
\<close>

definition sample_a :: cpu_sample where
  "sample_a = \<lparr>user = 100, nice = 0, system = 0, idle = 60, iowait = 40, irq = 0, softirq = 0\<rparr>"

definition sample_b :: cpu_sample where
  "sample_b = \<lparr>user = 200, nice = 20, system = 20, idle = 100, iowait = 50, irq = 5, softirq = 5\<rparr>"

definition sample_c :: cpu_sample where
  "sample_c = \<lparr>user = 100, nice = 0, system = 0, idle = 100, iowait = 0, irq = 0, softirq = 0\<rparr>"

definition sample_idle :: cpu_sample where
  "sample_idle = \<lparr>user = 0, nice = 0, system = 0, idle = 100, iowait = 0, irq = 0, softirq = 0\<rparr>"

definition sample_zero :: cpu_sample where
  "sample_zero = \<lparr>user = 0, nice = 0, system = 0, idle = 0, iowait = 0, irq = 0, softirq = 0\<rparr>"



section \<open>Properties\<close>

subsection \<open>Strings\<close>




subsection \<open>Binary32 rounding\<close>

lemma round_even_of_int [simp]: "round_even (of_int k) = k"
  by (simp add: round_even_def)

lemma round_even_cases:
  "round_even x = \<lfloor>x\<rfloor> \<and> x - of_int \<lfloor>x\<rfloor> \<le> 1 / 2 \<or>
   round_even x = \<lfloor>x\<rfloor> + 1 \<and> 1 / 2 \<le> x - of_int \<lfloor>x\<rfloor>"
  unfolding round_even_def Let_def by auto

lemma round_even_le:
  assumes "x \<le> of_int k"
  shows "round_even x \<le> k"
proof -
  have f: "of_int \<lfloor>x\<rfloor> \<le> x" by simp
  from round_even_cases [of x] show ?thesis
  proof
    assume "round_even x = \<lfloor>x\<rfloor> \<and> x - of_int \<lfloor>x\<rfloor> \<le> 1 / 2"
    then show ?thesis using assms by (simp add: floor_le_iff)
  next
    assume a: "round_even x = \<lfloor>x\<rfloor> + 1 \<and> 1 / 2 \<le> x - of_int \<lfloor>x\<rfloor>"
    then have "(of_int \<lfloor>x\<rfloor> :: rat) < of_int k" using assms by linarith
    then have "\<lfloor>x\<rfloor> < k" by simp
    then show ?thesis using a by simp
  qed
qed

lemma round_even_ge:
  assumes "of_int k \<le> x"
  shows "k \<le> round_even x"
proof -
  have "k \<le> \<lfloor>x\<rfloor>" using assms by (simp add: le_floor_iff)
  then show ?thesis using round_even_cases [of x] by auto
qed

lemma round_even_near: "\<bar>of_int (round_even x) - x\<bar> \<le> 1 / 2"
proof -
  have f: "of_int \<lfloor>x\<rfloor> \<le> x" "x < of_int \<lfloor>x\<rfloor> + 1" by linarith+
  from round_even_cases [of x] show ?thesis
  proof
    assume "round_even x = \<lfloor>x\<rfloor> \<and> x - of_int \<lfloor>x\<rfloor> \<le> 1 / 2"
    then show ?thesis using f by (simp add: abs_le_iff)
  next
    assume "round_even x = \<lfloor>x\<rfloor> + 1 \<and> 1 / 2 \<le> x - of_int \<lfloor>x\<rfloor>"
    then show ?thesis using f by (simp add: abs_le_iff)
  qed
qed

lemma bitlen_powi:
  assumes "0 < p"
  shows "(2::rat) powi (bitlen p - 1) \<le> of_int p" and "of_int p < (2::rat) powi (bitlen p)"
proof -
  have b: "2 ^ nat (bitlen p - 1) \<le> p" "p < 2 ^ nat (bitlen p)"
    using bitlen_bounds [OF assms] by auto
  have b1: "1 \<le> bitlen p" using assms bitlen_eq_zero_iff [of p] bitlen_nonneg [of p] by linarith
  have "(2::rat) powi (bitlen p - 1) = 2 ^ nat (bitlen p - 1)"
    using b1 by (simp add: power_int_nonneg_exp)
  also have "\<dots> = of_int (2 ^ nat (bitlen p - 1))" by simp
  also have "\<dots> \<le> of_int p" using b(1) by (simp only: of_int_le_iff)
  finally show "(2::rat) powi (bitlen p - 1) \<le> of_int p" .
  have "(of_int p :: rat) < of_int (2 ^ nat (bitlen p))" using b(2) by (simp only: of_int_less_iff)
  also have "\<dots> = 2 powi (bitlen p)" using b1 by (simp add: power_int_nonneg_exp)
  finally show "of_int p < (2::rat) powi (bitlen p)" .
qed

lemma ilog2_bounds:
  assumes "x \<noteq> 0"
  shows "2 powi (ilog2 x) \<le> \<bar>x\<bar>" and "\<bar>x\<bar> < 2 powi (ilog2 x + 1)"
proof -
  obtain p q where pq: "quotient_of \<bar>x\<bar> = (p, q)" by (cases "quotient_of \<bar>x\<bar>")
  have q: "0 < q" using pq quotient_of_denom_pos by blast
  have xpq: "\<bar>x\<bar> = of_int p / of_int q" using pq quotient_of_div by blast
  have p: "0 < p"
  proof -
    have "0 < \<bar>x\<bar>" using assms by simp
    then show ?thesis using q unfolding xpq by (simp add: zero_less_divide_iff)
  qed
  define d where "d = bitlen p - bitlen q"
  note bp = bitlen_powi [OF p] and bq = bitlen_powi [OF q]
  have qpos: "(0::rat) < of_int q" using q by simp
  have lo: "2 powi (d - 1) < \<bar>x\<bar>"
  proof -
    have "(2::rat) powi (d - 1) * of_int q < 2 powi (d - 1) * 2 powi (bitlen q)"
      using bq(2) by (simp add: mult_strict_left_mono)
    also have "\<dots> = 2 powi (bitlen p - 1)"
      by (simp add: d_def power_int_add [symmetric])
    also have "\<dots> \<le> of_int p" by (rule bp(1))
    finally show ?thesis unfolding xpq using qpos by (simp add: pos_less_divide_eq)
  qed
  have hi: "\<bar>x\<bar> < 2 powi (d + 1)"
  proof -
    have "(of_int p :: rat) < 2 powi (bitlen p)" by (rule bp(2))
    also have "\<dots> = 2 powi (d + 1) * 2 powi (bitlen q - 1)"
      by (simp add: d_def power_int_add [symmetric])
    also have "\<dots> \<le> 2 powi (d + 1) * of_int q"
      using bq(1) by (simp add: mult_left_mono)
    finally show ?thesis unfolding xpq using qpos by (simp add: pos_divide_less_eq)
  qed
  have il: "ilog2 x = (if 2 powi d \<le> \<bar>x\<bar> then d else d - 1)"
    by (simp add: ilog2_def pq d_def Let_def)
  show "2 powi (ilog2 x) \<le> \<bar>x\<bar>" using il lo by (auto simp: less_imp_le)
  show "\<bar>x\<bar> < 2 powi (ilog2 x + 1)" using il hi by (auto simp: not_le)
qed


lemma two_powi_le: "(2::rat) powi a \<le> 2 powi b \<longleftrightarrow> a \<le> b"
proof
  assume h: "(2::rat) powi a \<le> 2 powi b"
  show "a \<le> b"
  proof (rule ccontr)
    assume "\<not> a \<le> b"
    then have "(2::rat) powi b < 2 powi a" by (intro power_int_strict_increasing) auto
    with h show False by simp
  qed
next
  assume "a \<le> b"
  then show "(2::rat) powi a \<le> 2 powi b" by (intro power_int_increasing) auto
qed

lemma two_powi_less: "(2::rat) powi a < 2 powi b \<longleftrightarrow> a < b"
  using two_powi_le [of b a] by (auto simp: not_le [symmetric])

lemma ilog2_le:
  assumes "x \<noteq> 0" "\<bar>x\<bar> \<le> 2 powi k"
  shows "ilog2 x \<le> k"
  using ilog2_bounds(1) [OF assms(1)] assms(2) two_powi_le [of "ilog2 x" k] by linarith

lemma ilog2_ge:
  assumes "x \<noteq> 0" "2 powi k \<le> \<bar>x\<bar>"
  shows "k \<le> ilog2 x"
proof -
  have "(2::rat) powi k < 2 powi (ilog2 x + 1)"
    using ilog2_bounds(2) [OF assms(1)] assms(2) by linarith
  then show ?thesis by (simp add: two_powi_less)
qed

text \<open>Rounding stays below a power of two that bounds the argument.\<close>

lemma f32_round_le_pow2:
  assumes "0 \<le> x" "x \<le> 2 powi k" "- 126 \<le> k" "k \<le> 127"
  shows "\<exists>y. f32_round s x = Finite s y \<and> 0 \<le> y \<and> y \<le> 2 powi k"
proof (cases "x = 0")
  case True
  then show ?thesis by (simp add: f32_round_def)
next
  case False
  define e where "e = max (ilog2 x - 23) (- 149)"
  define r where "r = round_even (x / 2 powi e)"
  have "ilog2 x \<le> k" using ilog2_le [OF False] assms by simp
  then have ek: "e \<le> k" unfolding e_def using assms(3) by simp
  have pe: "(0::rat) < 2 powi e" by simp
  have "x / 2 powi e \<le> 2 powi k / 2 powi e"
    using assms(2) pe by (simp add: divide_right_mono)
  also have "\<dots> = 2 powi (k - e)" by (simp add: power_int_diff)
  also have "\<dots> = of_int (2 ^ nat (k - e))" using ek by (simp add: power_int_nonneg_exp)
  finally have "r \<le> 2 ^ nat (k - e)" unfolding r_def by (rule round_even_le)
  then have "(of_int r :: rat) \<le> of_int (2 ^ nat (k - e))" by (simp only: of_int_le_iff)
  also have "\<dots> = 2 powi (k - e)" using ek by (simp add: power_int_nonneg_exp)
  finally have "of_int r * 2 powi e \<le> 2 powi (k - e) * (2::rat) powi e"
    using pe by (simp add: mult_right_mono)
  also have "\<dots> = 2 powi k" by (simp add: power_int_add [symmetric])
  finally have up: "of_int r * 2 powi e \<le> (2::rat) powi k" .
  have "(of_int 0 :: rat) \<le> x / 2 powi e" using assms(1) by simp
  then have "0 \<le> r" unfolding r_def by (rule round_even_ge)
  then have lo: "(0::rat) \<le> of_int r * 2 powi e" by simp
  have "(2::rat) powi k \<le> 2 powi 127" using assms(4) two_powi_le [of k 127] by blast
  also have "\<dots> < 2 ^ 128" by simp
  finally have "\<not> (2::rat) ^ 128 \<le> of_int r * 2 powi e" using up by linarith
  then have "f32_round s x = Finite s (of_int r * 2 powi e)"
    using False by (simp add: f32_round_def Let_def e_def r_def)
  with up lo show ?thesis by blast
qed

text \<open>Rounding does not fall below the power of two under the argument.\<close>

lemma f32_round_ge_pow2:
  assumes "2 powi k \<le> x" "- 149 \<le> k"
  shows "f32_round s x = Infinity s \<or> (\<exists>y. f32_round s x = Finite s y \<and> 2 powi k \<le> y)"
proof -
  have xpos: "0 < x" using assms(1) zero_less_power_int [of "2::rat" k] by linarith
  then have x0: "x \<noteq> 0" and ax: "\<bar>x\<bar> = x" by auto
  define e where "e = max (ilog2 x - 23) (- 149)"
  define r where "r = round_even (x / 2 powi e)"
  have kl: "k \<le> ilog2 x" using ilog2_ge [OF x0] assms(1) ax by simp
  then have el: "e \<le> ilog2 x" unfolding e_def using assms(2) by simp
  have pe: "(0::rat) < 2 powi e" by simp
  have "(of_int (2 ^ nat (ilog2 x - e)) :: rat) = 2 powi (ilog2 x - e)"
    using el by (simp add: power_int_nonneg_exp)
  also have "\<dots> = 2 powi (ilog2 x) / 2 powi e" by (simp add: power_int_diff)
  also have "\<dots> \<le> x / 2 powi e"
    using ilog2_bounds(1) [OF x0] ax pe by (simp add: divide_right_mono)
  finally have "2 ^ nat (ilog2 x - e) \<le> r" unfolding r_def by (rule round_even_ge)
  then have "(of_int (2 ^ nat (ilog2 x - e)) :: rat) \<le> of_int r" by (simp only: of_int_le_iff)
  then have "(2::rat) powi (ilog2 x - e) \<le> of_int r"
    using el by (simp add: power_int_nonneg_exp)
  then have "2 powi (ilog2 x - e) * 2 powi e \<le> of_int r * (2::rat) powi e"
    using pe by (simp add: mult_right_mono)
  then have "(2::rat) powi (ilog2 x) \<le> of_int r * 2 powi e"
    by (simp add: power_int_add [symmetric])
  moreover have "(2::rat) powi k \<le> 2 powi (ilog2 x)" using kl by (simp add: two_powi_le)
  ultimately have lo: "(2::rat) powi k \<le> of_int r * 2 powi e" by linarith
  show ?thesis
    using x0 lo by (auto simp: f32_round_def Let_def e_def r_def)
qed

text \<open>Integers up to \<open>2^24\<close> are binary32 values.\<close>

lemma f32_round_int_exact:
  assumes "0 \<le> n" "n \<le> 2 ^ 24"
  shows "f32_round s (of_int n) = Finite s (of_int n)"
proof (cases "n = 0")
  case True
  then show ?thesis by (simp add: f32_round_def)
next
  case False
  define x :: rat where "x = of_int n"
  have x0: "x \<noteq> 0" and ax: "\<bar>x\<bar> = x" using False assms(1) by (auto simp: x_def)
  define e where "e = max (ilog2 x - 23) (- 149)"
  have "x \<le> of_int (2 ^ 24)" unfolding x_def using assms(2) by (simp only: of_int_le_iff)
  then have x24: "x \<le> 2 powi 24" by simp
  then have il: "ilog2 x \<le> 24" using ilog2_le [OF x0] ax by simp
  have "\<exists>K. x / 2 powi e = of_int K"
  proof (cases "e \<le> 0")
    case True
    have "x / 2 powi e = x * 2 powi (- e)" by (simp add: power_int_minus field_simps)
    also have "\<dots> = of_int (n * 2 ^ nat (- e))"
      using True by (simp add: x_def power_int_nonneg_exp)
    finally show ?thesis by blast
  next
    case False
    then have "ilog2 x = 24" and e1: "e = 1" using il unfolding e_def by auto
    then have "(2::rat) powi 24 \<le> x" using ilog2_bounds(1) [OF x0] ax by simp
    then have "x = 2 ^ 24" using x24 by simp
    then have "x / 2 powi e = of_int (2 ^ 23)" using e1 by simp
    then show ?thesis by blast
  qed
  then obtain K where K: "x / 2 powi e = of_int K" by blast
  then have y: "of_int (round_even (x / 2 powi e)) * 2 powi e = x" by (simp add: field_simps)
  have "x < 2 ^ 128" using x24 by simp
  then show ?thesis
    using x0 y unfolding x_def [symmetric] by (simp add: f32_round_def Let_def e_def)
qed

lemma f32_round_range:
  assumes "2 powi j \<le> x" "x \<le> 2 powi k" "- 149 \<le> j" "- 126 \<le> k" "k \<le> 127"
  shows "\<exists>y. f32_round s x = Finite s y \<and> 2 powi j \<le> y \<and> y \<le> 2 powi k"
proof -
  have "0 \<le> x" using assms(1) zero_less_power_int [of "2::rat" j] by linarith
  from f32_round_le_pow2 [OF this assms(2,4,5), of s] f32_round_ge_pow2 [OF assms(1,3), of s]
  show ?thesis by auto
qed

lemma f32_of_int_100: "f32_of_int 100 = Finite False 100"
  using f32_round_int_exact [of 100 False] by (simp add: f32_of_int_def)

lemma f32_of_int_0: "f32_of_int 0 = Finite False 0"
  by (simp add: f32_of_int_def f32_round_def)

lemma f32_of_int_nonzero:
  assumes "k \<noteq> 0" "\<bar>k\<bar> \<le> 2 ^ 64"
  shows "\<exists>y. f32_of_int k = Finite (k < 0) y \<and> 1 \<le> y \<and> y \<le> 2 powi 64"
proof -
  have "1 \<le> \<bar>k\<bar>" using assms(1) by simp
  then have "(of_int 1 :: rat) \<le> of_int \<bar>k\<bar>" by (simp only: of_int_le_iff)
  then have lo: "(2::rat) powi 0 \<le> of_int \<bar>k\<bar>" by simp
  have "(of_int \<bar>k\<bar> :: rat) \<le> of_int (2 ^ 64)" using assms(2) by (simp only: of_int_le_iff)
  then have hi: "(of_int \<bar>k\<bar> :: rat) \<le> 2 powi 64" by simp
  from f32_round_range [OF lo hi, of "k < 0"] show ?thesis by (simp add: f32_of_int_def)
qed

lemma f32_of_int_bounded:
  assumes "\<bar>k\<bar> \<le> 2 ^ 64"
  shows "\<exists>y. f32_of_int k = Finite (k < 0) y \<and> 0 \<le> y \<and> y \<le> 2 powi 64"
proof (cases "k = 0")
  case True
  then show ?thesis by (simp add: f32_of_int_0)
next
  case False
  from f32_of_int_nonzero [OF False assms] show ?thesis
    by (metis le_numeral_extra(1) order_trans)
qed

lemma f32_of_int_exact:
  assumes "\<bar>k\<bar> \<le> 2 ^ 24"
  shows "f32_of_int k = Finite (k < 0) (of_int \<bar>k\<bar>)"
  using f32_round_int_exact [of "\<bar>k\<bar>" "k < 0"] assms by (simp add: f32_of_int_def)

lemma f32_div_zero_not_finite: "\<not> is_finite (f32_div a (Finite t 0))"
  by (cases a) (simp_all add: f32_div_def is_finite_def)

text \<open>The expression \<open>100.0f * a / b\<close> of the three samplers, on integers of 64 bits.\<close>

lemma percent_finite_iff:
  assumes "\<bar>a\<bar> \<le> 2 ^ 64" "\<bar>b\<bar> \<le> 2 ^ 64"
  shows "is_finite (f32_div (f32_mul (Finite False 100) (f32_of_int a)) (f32_of_int b)) \<longleftrightarrow> b \<noteq> 0"
proof (cases "b = 0")
  case True
  then show ?thesis by (simp add: f32_of_int_0 f32_div_zero_not_finite)
next
  case False
  obtain ya where ya: "f32_of_int a = Finite (a < 0) ya" "0 \<le> ya" "ya \<le> 2 powi 64"
    using f32_of_int_bounded [OF assms(1)] by blast
  obtain yb where yb: "f32_of_int b = Finite (b < 0) yb" "1 \<le> yb" "yb \<le> 2 powi 64"
    using f32_of_int_nonzero [OF False assms(2)] by blast
  have "100 * ya \<le> 2 powi 7 * 2 powi 64" using ya(2,3) by (intro mult_mono) auto
  also have "\<dots> = 2 powi 71" by (simp add: power_int_add [symmetric])
  finally have "100 * ya \<le> 2 powi 71" .
  moreover have "0 \<le> 100 * ya" using ya(2) by simp
  ultimately obtain y where y: "f32_round (a < 0) (100 * ya) = Finite (a < 0) y" "0 \<le> y"
      "y \<le> 2 powi 71"
    using f32_round_le_pow2 [of "100 * ya" 71 "a < 0"] by auto
  have "y / yb \<le> y / 1" using y(2) yb(2) by (intro divide_left_mono) auto
  then have "y / yb \<le> 2 powi 71" using y(3) by simp
  moreover have "0 \<le> y / yb" using y(2) yb(2) by simp
  ultimately obtain z where z: "f32_round ((a < 0) \<noteq> (b < 0)) (y / yb) = Finite ((a < 0) \<noteq> (b < 0)) z"
    using f32_round_le_pow2 [of "y / yb" 71 "(a < 0) \<noteq> (b < 0)"] by auto
  have "yb \<noteq> 0" using yb(2) by simp
  then have "f32_div (f32_mul (Finite False 100) (f32_of_int a)) (f32_of_int b) =
      Finite ((a < 0) \<noteq> (b < 0)) z"
    using y(1) z by (simp add: ya(1) yb(1) f32_mul_def f32_div_def)
  then show ?thesis using False by (simp add: is_finite_def)
qed

lemma percent_positive:
  assumes "0 < a" "a \<le> 2 ^ 64" "0 < b" "b \<le> 2 ^ 64"
  shows "\<exists>y. f32_div (f32_mul (Finite False 100) (f32_of_int a)) (f32_of_int b) = Finite False y
           \<and> 0 < y"
proof -
  obtain ya where ya: "f32_of_int a = Finite False ya" "1 \<le> ya" "ya \<le> 2 powi 64"
    using f32_of_int_nonzero [of a] assms(1,2) by auto
  obtain yb where yb: "f32_of_int b = Finite False yb" "1 \<le> yb" "yb \<le> 2 powi 64"
    using f32_of_int_nonzero [of b] assms(3,4) by auto
  have "100 * ya \<le> 2 powi 7 * 2 powi 64" using ya(2,3) by (intro mult_mono) auto
  also have "\<dots> = 2 powi 71" by (simp add: power_int_add [symmetric])
  finally have "100 * ya \<le> 2 powi 71" .
  moreover have "2 powi 0 \<le> 100 * ya" using ya(2) by simp
  ultimately obtain y where y: "f32_round False (100 * ya) = Finite False y" "2 powi 0 \<le> y"
      "y \<le> 2 powi 71"
    using f32_round_range [of 0 "100 * ya" 71 False] by auto
  have "y / yb \<le> y / 1" using y(2) yb(2) by (intro divide_left_mono) auto
  then have hi: "y / yb \<le> 2 powi 71" using y(3) by simp
  have "1 / 2 powi 64 \<le> 1 / yb" using yb(2,3) by (intro divide_left_mono) auto
  also have "\<dots> \<le> y / yb" using y(2) yb(2) by (simp add: divide_right_mono)
  finally have lo: "2 powi (- 64) \<le> y / yb" by (simp add: power_int_minus divide_simps)
  obtain z where z: "f32_round False (y / yb) = Finite False z" "2 powi (- 64) \<le> z"
    using f32_round_range [OF lo hi, of False] by auto
  have "0 < z" using z(2) zero_less_power_int [of "2::rat" "- 64"] by linarith
  moreover have "yb \<noteq> 0" using yb(2) by simp
  ultimately show ?thesis
    by (simp add: ya(1) yb(1) f32_mul_def f32_div_def y(1) z(1))
qed

lemma percent_zero:
  assumes "b \<noteq> 0" "\<bar>b\<bar> \<le> 2 ^ 64"
  shows "f32_div (f32_mul (Finite False 100) (f32_of_int 0)) (f32_of_int b) = Finite (b < 0) 0"
proof -
  obtain yb where yb: "f32_of_int b = Finite (b < 0) yb" "1 \<le> yb"
    using f32_of_int_nonzero [OF assms] by blast
  then have "yb \<noteq> 0" by simp
  then show ?thesis
    by (simp add: f32_of_int_0 yb(1) f32_mul_def f32_div_def f32_round_def)
qed

lemma percent_exact:
  assumes "100 * \<bar>a\<bar> \<le> 2 ^ 24" "\<bar>b\<bar> \<le> 2 ^ 24" "b \<noteq> 0"
  shows "f32_div (f32_mul (Finite False 100) (f32_of_int a)) (f32_of_int b) =
           f32_round ((a < 0) \<noteq> (b < 0)) (100 * of_int \<bar>a\<bar> / of_int \<bar>b\<bar>)"
proof -
  have a: "f32_of_int a = Finite (a < 0) (of_int \<bar>a\<bar>)"
    using assms(1) by (intro f32_of_int_exact) simp
  have b: "f32_of_int b = Finite (b < 0) (of_int \<bar>b\<bar>)"
    using assms(2) by (intro f32_of_int_exact)
  have "f32_round (a < 0) (of_int (100 * \<bar>a\<bar>)) = Finite (a < 0) (of_int (100 * \<bar>a\<bar>))"
    using assms(1) by (intro f32_round_int_exact) simp_all
  then have m: "f32_round (a < 0) (100 * of_int \<bar>a\<bar>) = Finite (a < 0) (100 * of_int \<bar>a\<bar>)"
    by simp
  show ?thesis using assms(3) m by (simp add: a b f32_mul_def f32_div_def)
qed


text \<open>The error of one rounding: a relative \<open>2^-24\<close>, or \<open>2^-150\<close> among the subnormals.\<close>

lemma f32_round_enclosure:
  assumes "0 \<le> x" "f32_round s x = Finite s y"
  shows "x * (1 - 1 / 2 ^ 24) - 2 powi (- 150) \<le> y" and "y \<le> x * (1 + 1 / 2 ^ 24) + 2 powi (- 150)"
proof -
  have "\<bar>y - x\<bar> \<le> x / 2 ^ 24 + 2 powi (- 150)"
  proof (cases "x = 0")
    case True
    then show ?thesis using assms(2) by (simp add: f32_round_def)
  next
    case False
    define e where "e = max (ilog2 x - 23) (- 149)"
    define r where "r = round_even (x / 2 powi e)"
    have ax: "\<bar>x\<bar> = x" using assms(1) by simp
    have y: "y = of_int r * 2 powi e"
      using assms(2) False by (simp add: f32_round_def Let_def e_def r_def split: if_splits)
    have pe: "(0::rat) < 2 powi e" by simp
    have "y - x = (of_int r - x / 2 powi e) * 2 powi e" using pe by (simp add: y field_simps)
    then have "\<bar>y - x\<bar> = \<bar>of_int r - x / 2 powi e\<bar> * 2 powi e"
      using pe by (simp add: abs_mult)
    also have "\<dots> \<le> 1 / 2 * 2 powi e"
      using round_even_near [of "x / 2 powi e"] pe unfolding r_def
      by (intro mult_right_mono) auto
    finally have d: "\<bar>y - x\<bar> \<le> 2 powi e / 2" by simp
    show ?thesis
    proof (cases "- 149 \<le> ilog2 x - 23")
      case True
      then have "e = ilog2 x - 23" by (simp add: e_def)
      then have "(2::rat) powi e = 2 powi (ilog2 x) / 2 ^ 23" by (simp add: power_int_diff)
      also have "\<dots> \<le> x / 2 ^ 23"
        using ilog2_bounds(1) [OF False] ax by (simp add: divide_right_mono)
      finally have "(2::rat) powi e / 2 \<le> x / 2 ^ 24" by simp
      moreover have "(0::rat) \<le> 2 powi (- 150)" by simp
      ultimately show ?thesis using d by linarith
    next
      case False
      then have "e = - 149" by (simp add: e_def)
      then have "(2::rat) powi e / 2 = 2 powi (- 150)" by (simp add: power_int_minus)
      moreover have "0 \<le> x / 2 ^ 24" using assms(1) by simp
      ultimately show ?thesis using d by linarith
    qed
  qed
  then show "x * (1 - 1 / 2 ^ 24) - 2 powi (- 150) \<le> y"
    and "y \<le> x * (1 + 1 / 2 ^ 24) + 2 powi (- 150)"
    by (simp_all add: abs_le_iff algebra_simps)
qed


lemma cube_bounds:
  "(1 + 1 / 2 ^ 24 :: rat) ^ 3 \<le> 1 + 1 / 2 ^ 22" "1 - 1 / 2 ^ 22 \<le> (1 - 1 / 2 ^ 24 :: rat) ^ 3"
  by (simp_all add: power3_eq_cube)

text \<open>Three roundings in a row: the width, the product and the quotient.\<close>

lemma bar_quotient_near:
  fixes m W w y q :: rat
  assumes m: "0 \<le> m" "m \<le> 100" and W: "0 \<le> W"
    and w: "W * (1 - 1 / 2 ^ 24) - 2 powi (- 150) \<le> w" "w \<le> W * (1 + 1 / 2 ^ 24) + 2 powi (- 150)"
    and y: "m * w * (1 - 1 / 2 ^ 24) - 2 powi (- 150) \<le> y"
           "y \<le> m * w * (1 + 1 / 2 ^ 24) + 2 powi (- 150)"
    and q: "y / 100 * (1 - 1 / 2 ^ 24) - 2 powi (- 150) \<le> q"
           "q \<le> y / 100 * (1 + 1 / 2 ^ 24) + 2 powi (- 150)"
  shows "\<bar>q - m * W / 100\<bar> \<le> m * W / 100 / 2 ^ 22 + 2 powi (- 148)"
proof -
  define a :: rat where "a = 1 + 1 / 2 ^ 24"
  define b :: rat where "b = 1 - 1 / 2 ^ 24"
  define e :: rat where "e = 2 powi (- 150)"
  define X where "X = m * W / 100"
  have a: "0 \<le> a" "a \<le> 5 / 4" "a ^ 3 \<le> 1 + 1 / 2 ^ 22"
    using cube_bounds(1) by (simp_all add: a_def)
  have b: "0 \<le> b" "b \<le> 1" "1 - 1 / 2 ^ 22 \<le> b ^ 3"
    using cube_bounds(2) by (simp_all add: b_def)
  have e: "0 \<le> e" "4 * e = 2 powi (- 148)" by (simp_all add: e_def power_int_minus)
  have X: "0 \<le> X" using m(1) W by (simp add: X_def)
  have m1: "m / 100 \<le> 1" using m(2) by simp
  have m0: "0 \<le> m / 100" using m(1) by simp
  note w' = w [folded a_def b_def e_def] and y' = y [folded a_def b_def e_def]
    and q' = q [folded a_def b_def e_def]
  txt \<open>The bound from above.\<close>
  have "m * w \<le> m * (W * a + e)" using w'(2) m(1) by (rule mult_left_mono)
  then have "m * w * a \<le> m * (W * a + e) * a" using a(1) by (rule mult_right_mono)
  then have "y \<le> m * (W * a + e) * a + e" using y'(2) by linarith
  then have "y / 100 * a \<le> (m * (W * a + e) * a + e) / 100 * a"
    using a(1) by (intro mult_right_mono divide_right_mono) auto
  then have "q \<le> (m * (W * a + e) * a + e) / 100 * a + e" using q'(2) by linarith
  also have "\<dots> = X * a ^ 3 + (m / 100 * a ^ 2 + a / 100 + 1) * e"
    by (simp add: X_def power3_eq_cube power2_eq_square field_simps)
  finally have up1: "q \<le> X * a ^ 3 + (m / 100 * a ^ 2 + a / 100 + 1) * e" .
  have "a ^ 2 \<le> (5 / 4) ^ 2" using a(1,2) by (intro power_mono) auto
  moreover have "(5 / 4 :: rat) ^ 2 \<le> 2" by (simp add: power2_eq_square)
  ultimately have a2: "a ^ 2 \<le> 2" by (rule order_trans)
  have "m / 100 * a ^ 2 \<le> 1 * a ^ 2" using m1 by (intro mult_right_mono) auto
  then have "m / 100 * a ^ 2 + a / 100 + 1 \<le> 4" using a2 a(2) by simp
  then have "(m / 100 * a ^ 2 + a / 100 + 1) * e \<le> 4 * e" using e(1) by (rule mult_right_mono)
  moreover have "X * a ^ 3 \<le> X * (1 + 1 / 2 ^ 22)" using a(3) X by (rule mult_left_mono)
  ultimately have up: "q \<le> X + X / 2 ^ 22 + 4 * e" using up1 by (simp add: algebra_simps)
  txt \<open>The bound from below.\<close>
  have "m * (W * b - e) \<le> m * w" using w'(1) m(1) by (rule mult_left_mono)
  then have "m * (W * b - e) * b \<le> m * w * b" using b(1) by (rule mult_right_mono)
  then have "m * (W * b - e) * b - e \<le> y" using y'(1) by linarith
  then have "(m * (W * b - e) * b - e) / 100 * b \<le> y / 100 * b"
    using b(1) by (intro mult_right_mono divide_right_mono) auto
  then have "(m * (W * b - e) * b - e) / 100 * b - e \<le> q" using q'(1) by linarith
  moreover have "(m * (W * b - e) * b - e) / 100 * b - e =
      X * b ^ 3 - (m / 100 * b ^ 2 + b / 100 + 1) * e"
    by (simp add: X_def power3_eq_cube power2_eq_square field_simps)
  ultimately have lo1: "X * b ^ 3 - (m / 100 * b ^ 2 + b / 100 + 1) * e \<le> q" by simp
  have "b ^ 2 \<le> 1 ^ 2" using b(1,2) by (intro power_mono) auto
  then have b2: "b ^ 2 \<le> 1" by simp
  have "m / 100 * b ^ 2 \<le> 1 * 1" using m1 m0 b2 by (intro mult_mono) auto
  then have "m / 100 * b ^ 2 + b / 100 + 1 \<le> 4" using b(2) by simp
  then have "(m / 100 * b ^ 2 + b / 100 + 1) * e \<le> 4 * e" using e(1) by (rule mult_right_mono)
  moreover have "X * (1 - 1 / 2 ^ 22) \<le> X * b ^ 3" using b(3) X by (rule mult_left_mono)
  ultimately have lo: "X - X / 2 ^ 22 - 4 * e \<le> q" using lo1 by (simp add: algebra_simps)
  have "\<bar>q - X\<bar> \<le> X / 2 ^ 22 + 4 * e" using up lo by (simp only: abs_le_iff) linarith
  then show ?thesis by (simp only: e(2) X_def)
qed


subsection \<open>The renderer\<close>

lemma bar_loop_replicate:
  "bar_loop c pos width i =
     replicate (nat (min pos width - i)) (Used c) @ replicate (nat (width - max i pos)) Free"
proof (induction c pos width i rule: bar_loop.induct)
  case (1 c pos width i)
  show ?case
  proof (cases "i < width")
    case False
    then show ?thesis by (subst bar_loop.simps) simp
  next
    case True
    note w = True
    show ?thesis
    proof (cases "i < pos")
      case True
      then have a: "nat (min pos width - i) = Suc (nat (min pos width - (i + 1)))"
        and b: "max i pos = max (i + 1) pos"
        using w by auto
      show ?thesis
        using w True 1 by (subst bar_loop.simps) (simp only: a b, simp)
    next
      case False
      then have a: "nat (min pos width - i) = 0" "nat (min pos width - (i + 1)) = 0"
        and b: "nat (width - max i pos) = Suc (nat (width - max (i + 1) pos))"
        using w by auto
      show ?thesis
        using w False 1 by (subst bar_loop.simps) (simp only: a b, simp)
    qed
  qed
qed

lemma drawProgressBar_cells:
  "drawProgressBar percent width invertColors =
     (case bar_pos percent width of
        None \<Rightarrow> Inl UndefinedConversion
      | Some pos \<Rightarrow>
          Inr \<lparr>cells =
                 replicate (nat (min (max pos 0) width)) (Used (bar_color percent invertColors)) @
                 replicate (nat (width - min (max pos 0) width)) Free,
               label = fixed1 percent\<rparr>)"
  if "0 < width"
proof (cases "bar_pos percent width")
  case None
  then show ?thesis by (simp add: drawProgressBar_def)
next
  case (Some pos)
  have a: "nat (min pos width) = nat (min (max pos 0) width)" using that by auto
  have b: "nat (width - max 0 pos) = nat (width - min (max pos 0) width)" using that by auto
  show ?thesis
    using Some by (simp add: drawProgressBar_def bar_loop_replicate a b)
qed

lemma f32_less_60_85: "f32_less p (Finite False 60) \<Longrightarrow> f32_less p (Finite False 85)"
  by (cases p) (auto simp: f32_less_def f32_val_def)

lemma f32_less_30_75: "f32_less p (Finite False 30) \<Longrightarrow> f32_less p (Finite False 75)"
  by (cases p) (auto simp: f32_less_def f32_val_def)

text \<open>
  C4. The color follows fixed thresholds on \<open>percent\<close>, compared as floats. Normal
  mode: green below 60, yellow from 60 up to but not including 85, red from 85 on.
  Inverted mode: red below 30, yellow from 30 up to but not including 75, green from 75
  on. The boundaries are exact: 59.9 (as a float) is green and 60 is yellow, 84.9 is yellow
  and 85 is red.
\<close>

theorem bar_color_thresholds:
  "(f32_less percent (Finite False 60) \<longrightarrow> bar_color percent False = Green) \<and>
   (f32_ge percent (Finite False 60) \<and> f32_less percent (Finite False 85) \<longrightarrow>
      bar_color percent False = Yellow) \<and>
   (f32_ge percent (Finite False 85) \<longrightarrow> bar_color percent False = Red) \<and>
   (f32_less percent (Finite False 30) \<longrightarrow> bar_color percent True = Red) \<and>
   (f32_ge percent (Finite False 30) \<and> f32_less percent (Finite False 75) \<longrightarrow>
      bar_color percent True = Yellow) \<and>
   (f32_ge percent (Finite False 75) \<longrightarrow> bar_color percent True = Green)"
  using f32_less_60_85 [of percent] f32_less_30_75 [of percent]
  by (auto simp: bar_color_def f32_ge_def)

theorem bar_color_thresholds_witness:
  "bar_color (Finite False (7851213 / 131072)) False = Green \<and>
   bar_color (Finite False 60) False = Yellow \<and>
   bar_color (Finite False (11128013 / 131072)) False = Yellow \<and>
   bar_color (Finite False 85) False = Red \<and>
   bar_color (Infinity False) False = Red \<and>
   bar_color (Finite False (15676211 / 524288)) True = Red \<and>
   bar_color (Finite False 30) True = Yellow \<and>
   bar_color (Finite False (9817293 / 131072)) True = Yellow \<and>
   bar_color (Finite False 75) True = Green \<and>
   f32_round False (599 / 10) = Finite False (7851213 / 131072) \<and>
   f32_round False (849 / 10) = Finite False (11128013 / 131072)"
proof -
  have r: "f32_round False (599 / 10) = Finite False (7851213 / 131072)"
    "f32_round False (849 / 10) = Finite False (11128013 / 131072)"
    by code_simp+
  show ?thesis
    using bar_color_thresholds [of "Finite False (7851213 / 131072)"]
      bar_color_thresholds [of "Finite False 60"]
      bar_color_thresholds [of "Finite False (11128013 / 131072)"]
      bar_color_thresholds [of "Finite False 85"]
      bar_color_thresholds [of "Infinity False"]
      bar_color_thresholds [of "Finite False (15676211 / 524288)"]
      bar_color_thresholds [of "Finite False 30"]
      bar_color_thresholds [of "Finite False (9817293 / 131072)"]
      bar_color_thresholds [of "Finite False 75"]
    by (simp add: r f32_less_def f32_ge_def f32_val_def)
qed

lemma show_nat_digit: "n < 10 \<Longrightarrow> show_nat n = [digit_char n]"
  by (subst show_nat.simps) simp

lemma fixed1_Finite:
  assumes "0 \<le> m"
  shows "\<exists>r. fixed1 (Finite s m) =
           (if s then ''-'' else []) @ show_nat (r div 10) @ ''.'' @ [digit_char (r mod 10)] \<and>
         int r = round_even (m * 10) \<and> \<bar>of_nat r / 10 - m\<bar> \<le> 1 / 20"
proof -
  define r where "r = nat (round_even (m * 10))"
  have "(of_int 0 :: rat) \<le> m * 10" using assms by simp
  then have "0 \<le> round_even (m * 10)" by (rule round_even_ge)
  then have ir: "int r = round_even (m * 10)" by (simp add: r_def)
  have "(of_nat r :: rat) = of_int (round_even (m * 10))"
    using ir by (metis of_int_of_nat_eq)
  then have "\<bar>of_nat r - m * 10\<bar> \<le> 1 / 2" using round_even_near [of "m * 10"] by simp
  moreover have "of_nat r / 10 - m = (of_nat r - m * 10) / 10" by simp
  ultimately have n: "\<bar>of_nat r / 10 - m\<bar> \<le> 1 / 20" by (simp only: abs_divide)
  have "fixed1 (Finite s m) =
      (if s then ''-'' else []) @ show_nat (r div 10) @ ''.'' @ [digit_char (r mod 10)]"
    by (simp add: fixed1_def r_def Let_def show_nat_digit)
  with ir n show ?thesis by blast
qed

lemma bar_pos_in_range:
  assumes "0 \<le> m" "m \<le> 100" "s \<longrightarrow> m = 0" "0 < width" "width \<le> 2 ^ 29"
  shows "\<exists>q. bar_quotient (Finite s m) width = Finite s q \<and>
             0 \<le> q \<and> (s \<longrightarrow> q = 0) \<and> bar_pos (Finite s m) width = Some \<lfloor>q\<rfloor> \<and>
             \<bar>q - m * of_int width / 100\<bar> \<le> m * of_int width / 100 / 2 ^ 22 + 2 powi (- 148)"
proof -
  have W0: "(0::rat) \<le> of_int \<bar>width\<bar>" by simp
  have aw: "\<bar>width\<bar> = width" using assms(4) by simp
  have "(of_int width :: rat) \<le> of_int (2 ^ 29)" using assms(5) by (simp only: of_int_le_iff)
  then have "(of_int \<bar>width\<bar> :: rat) \<le> 2 powi 29" using assms(4) by simp
  then obtain w where w: "f32_round False (of_int \<bar>width\<bar>) = Finite False w" "0 \<le> w"
      "w \<le> 2 powi 29"
    using f32_round_le_pow2 [OF W0, of 29 False] by auto
  have fw: "f32_of_int width = Finite False w" using w(1) assms(4) by (simp add: f32_of_int_def)
  have "m * w \<le> 100 * 2 powi 29" using assms(1,2) w(2,3) by (intro mult_mono) auto
  also have "\<dots> \<le> 2 powi 36" by simp
  finally have "m * w \<le> 2 powi 36" .
  moreover have mw0: "0 \<le> m * w" using assms(1) w(2) by simp
  ultimately obtain y where y: "f32_round s (m * w) = Finite s y" "0 \<le> y" "y \<le> 2 powi 36"
    using f32_round_le_pow2 [of "m * w" 36 s] by auto
  have "y / 100 \<le> 2 powi 36 / 100" using y(3) by (simp add: divide_right_mono)
  also have "\<dots> \<le> 2 powi 30" by simp
  finally have "y / 100 \<le> 2 powi 30" .
  moreover have y0: "0 \<le> y / 100" using y(2) by simp
  ultimately obtain q where q: "f32_round s (y / 100) = Finite s q" "0 \<le> q" "q \<le> 2 powi 30"
    using f32_round_le_pow2 [of "y / 100" 30 s] by auto
  have d: "bar_quotient (Finite s m) width = Finite s q"
    by (simp add: bar_quotient_def fw f32_of_int_100 f32_mul_def f32_div_def y(1) q(1))
  have fq: "0 \<le> \<lfloor>q\<rfloor>" "\<lfloor>q\<rfloor> \<le> 2 ^ 30"
    using q(2,3) by (simp_all add: floor_le_iff le_floor_iff)
  have sq: "s \<Longrightarrow> q = 0"
  proof -
    assume s
    then have "m = 0" using assms(3) by simp
    then have "y = 0" using y(1) by (simp add: f32_round_def)
    then show "q = 0" using q(1) by (simp add: f32_round_def)
  qed
  have "f32_to_int (Finite s q) = Some \<lfloor>q\<rfloor>"
    using fq sq by (auto simp: f32_to_int_def Let_def)
  then have p: "bar_pos (Finite s m) width = Some \<lfloor>q\<rfloor>" using d by (simp add: bar_pos_def)
  have n: "\<bar>q - m * of_int \<bar>width\<bar> / 100\<bar> \<le> m * of_int \<bar>width\<bar> / 100 / 2 ^ 22 + 2 powi (- 148)"
    using assms(1,2) W0 f32_round_enclosure [OF W0 w(1)] f32_round_enclosure [OF mw0 y(1)]
      f32_round_enclosure [OF y0 q(1)]
    by (rule bar_quotient_near)
  show ?thesis using d q(2) sq p n unfolding aw by blast
qed

lemma floor_of_near:
  fixes q X err :: rat
  assumes "\<bar>q - X\<bar> \<le> err" "of_int \<lfloor>X\<rfloor> + err \<le> X" "X + err < of_int \<lfloor>X\<rfloor> + 1"
  shows "\<lfloor>q\<rfloor> = \<lfloor>X\<rfloor>"
proof (rule floor_unique)
  show "of_int \<lfloor>X\<rfloor> \<le> q" using assms(1,2) by (simp add: abs_le_iff)
  show "q < of_int \<lfloor>X\<rfloor> + 1" using assms(1,3) by (simp add: abs_le_iff)
qed

text \<open>
  C3, as amended. For every binary32 \<open>percent\<close> between 0 and 100 and every \<open>width\<close>
  from 1 to \<open>2^29\<close>, the bar is \<open>min width \<lfloor>q\<rfloor>\<close> filled cells followed by free cells,
  \<open>width\<close> cells in all, where \<open>q\<close> is \<open>percent * width / 100\<close> as binary32 arithmetic
  computes it: the product rounded to nearest, then the quotient rounded to nearest. This
  \<open>q\<close> is within \<open>err = X / 2^22 + 2^-148\<close> of the exact quotient \<open>X\<close>, so the count is
  \<open>\<lfloor>X\<rfloor>\<close> whenever \<open>X\<close> is at least \<open>err\<close> away from the integers around it. The
  text after the bar is \<open>percent\<close> rounded to one decimal: the sign, the digits of
  \<open>r div 10\<close>, a point and the digit \<open>r mod 10\<close>, where \<open>r\<close> is \<open>10 * percent\<close> rounded
  to the nearest integer (ties to even), so that \<open>r / 10\<close> is within \<open>1/20\<close> of \<open>percent\<close>.
\<close>

theorem drawProgressBar_filled_binary32:
  fixes percent :: f32 and width :: int and invertColors :: bool
  defines "q \<equiv> f32_val (bar_quotient percent width)"
    and "X \<equiv> f32_val percent * of_int width / 100"
    and "r \<equiv> nat (round_even (f32_val percent * 10))"
  assumes "is_binary32 percent"
    and "f32_ge percent (Finite False 0)" and "f32_ge (Finite False 100) percent"
    and "0 < width" and "width \<le> 2 ^ 29"
  shows "is_finite (bar_quotient percent width) \<and> 0 \<le> q \<and>
         \<bar>q - X\<bar> \<le> X / 2 ^ 22 + 2 powi (- 148) \<and>
         (of_int \<lfloor>X\<rfloor> + (X / 2 ^ 22 + 2 powi (- 148)) \<le> X \<and>
          X + (X / 2 ^ 22 + 2 powi (- 148)) < of_int \<lfloor>X\<rfloor> + 1 \<longrightarrow> \<lfloor>q\<rfloor> = \<lfloor>X\<rfloor>) \<and>
         drawProgressBar percent width invertColors =
           Inr \<lparr>cells =
                  replicate (nat (min \<lfloor>q\<rfloor> width)) (Used (bar_color percent invertColors)) @
                  replicate (nat (width - min \<lfloor>q\<rfloor> width)) Free,
                label = (if f32_sign percent then ''-'' else []) @ show_nat (r div 10) @ ''.'' @
                        [digit_char (r mod 10)]\<rparr> \<and>
         \<bar>of_nat r / 10 - f32_val percent\<bar> \<le> 1 / 20"
proof -
  obtain s m where p: "percent = Finite s m"
    using assms(5,6) by (cases percent) (auto simp: f32_ge_def f32_less_def)
  have m0: "0 \<le> m" using assms(4) by (simp add: p is_binary32_def)
  have m100: "m \<le> 100" and sm: "s \<longrightarrow> m = 0"
    using assms(5,6) m0 by (auto simp: p f32_ge_def f32_less_def f32_val_def split: if_splits)
  have v: "f32_val percent = m" using sm by (auto simp: p f32_val_def)
  from bar_pos_in_range [OF m0 m100 sm assms(7,8)]
  obtain q' where q': "bar_quotient (Finite s m) width = Finite s q'"
    "0 \<le> q'" "bar_pos (Finite s m) width = Some \<lfloor>q'\<rfloor>"
    "\<bar>q' - m * of_int width / 100\<bar> \<le> m * of_int width / 100 / 2 ^ 22 + 2 powi (- 148)"
    "s \<longrightarrow> q' = 0"
    by blast
  have qq: "q = q'" using q'(5) by (auto simp: q_def p q'(1) f32_val_def)
  have XX: "X = m * of_int width / 100" by (simp add: X_def v)
  from fixed1_Finite [OF m0, of s]
  obtain r' where r': "fixed1 (Finite s m) =
      (if s then ''-'' else []) @ show_nat (r' div 10) @ ''.'' @ [digit_char (r' mod 10)]"
    "int r' = round_even (m * 10)" "\<bar>of_nat r' / 10 - m\<bar> \<le> 1 / 20" by blast
  have rr: "r = r'" using r'(2) by (simp add: r_def v)
  have 1: "is_finite (bar_quotient percent width)" by (simp add: p q'(1) is_finite_def)
  have 2: "0 \<le> q" using q'(2) by (simp add: qq)
  have 3: "\<bar>q - X\<bar> \<le> X / 2 ^ 22 + 2 powi (- 148)" using q'(4) by (simp only: qq XX)
  have 4: "\<lfloor>q\<rfloor> = \<lfloor>X\<rfloor>"
    if "of_int \<lfloor>X\<rfloor> + (X / 2 ^ 22 + 2 powi (- 148)) \<le> X \<and>
        X + (X / 2 ^ 22 + 2 powi (- 148)) < of_int \<lfloor>X\<rfloor> + 1"
    using 3 that by (intro floor_of_near) auto
  have "max \<lfloor>q'\<rfloor> 0 = \<lfloor>q'\<rfloor>" using q'(2) by simp
  then have 5: "drawProgressBar percent width invertColors =
      Inr \<lparr>cells =
             replicate (nat (min \<lfloor>q\<rfloor> width)) (Used (bar_color percent invertColors)) @
             replicate (nat (width - min \<lfloor>q\<rfloor> width)) Free,
           label = (if f32_sign percent then ''-'' else []) @ show_nat (r div 10) @ ''.'' @
                   [digit_char (r mod 10)]\<rparr>"
    using drawProgressBar_cells [OF assms(7), of percent invertColors] q'(3) r'(1)
    by (simp add: p qq rr f32_sign_def)
  have 6: "\<bar>of_nat r / 10 - f32_val percent\<bar> \<le> 1 / 20" using r'(3) by (simp only: rr v)
  show ?thesis using 1 2 3 4 5 6 by (intro conjI impI) 
qed

theorem drawProgressBar_filled_binary32_witness:
  "is_binary32 (Finite False (75 / 2)) \<and>
   f32_ge (Finite False (75 / 2)) (Finite False 0) \<and>
   f32_ge (Finite False 100) (Finite False (75 / 2)) \<and>
   \<lfloor>(75 / 2 :: rat) * 30 / 100\<rfloor> = 11 \<and>
   drawProgressBar (Finite False (75 / 2)) 30 False =
     Inr \<lparr>cells = replicate 11 (Used Green) @ replicate 19 Free, label = ''37.5''\<rparr>"
proof -
  have h: "is_binary32 (Finite False (75 / 2))" "f32_ge (Finite False (75 / 2)) (Finite False 0)"
    "f32_ge (Finite False 100) (Finite False (75 / 2))"
    by code_simp+
  have w: "(0::int) < 30" "(30::int) \<le> 2 ^ 29" by simp_all
  note t = drawProgressBar_filled_binary32 [OF h w, of False]
  have x: "\<lfloor>f32_val (Finite False (75 / 2)) * of_int 30 / 100\<rfloor> = 11"
    "\<lfloor>(75 / 2 :: rat) * 30 / 100\<rfloor> = 11"
    by code_simp+
  have g: "of_int \<lfloor>f32_val (Finite False (75 / 2)) * of_int 30 / 100\<rfloor> +
        (f32_val (Finite False (75 / 2)) * of_int 30 / 100 / 2 ^ 22 + 2 powi (- 148))
      \<le> f32_val (Finite False (75 / 2)) * of_int 30 / 100 \<and>
     f32_val (Finite False (75 / 2)) * of_int 30 / 100 +
        (f32_val (Finite False (75 / 2)) * of_int 30 / 100 / 2 ^ 22 + 2 powi (- 148))
      < of_int \<lfloor>f32_val (Finite False (75 / 2)) * of_int 30 / 100\<rfloor> + 1"
    by code_simp
  have "\<lfloor>f32_val (bar_quotient (Finite False (75 / 2)) 30)\<rfloor> =
      \<lfloor>f32_val (Finite False (75 / 2)) * of_int 30 / 100\<rfloor>"
    using t [THEN conjunct2, THEN conjunct2, THEN conjunct2, THEN conjunct1] g by (rule mp)
  then have q: "\<lfloor>f32_val (bar_quotient (Finite False (75 / 2)) 30)\<rfloor> = 11" by (simp only: x)
  have c: "bar_color (Finite False (75 / 2)) False = Green" by code_simp
  have l: "(if f32_sign (Finite False (75 / 2)) then ''-'' else []) @
      show_nat (nat (round_even (f32_val (Finite False (75 / 2)) * 10)) div 10) @ ''.'' @
      [digit_char (nat (round_even (f32_val (Finite False (75 / 2)) * 10)) mod 10)] = ''37.5''"
    by code_simp
  from t [THEN conjunct2, THEN conjunct2, THEN conjunct2, THEN conjunct2, THEN conjunct1]
  have d: "drawProgressBar (Finite False (75 / 2)) 30 False =
     Inr \<lparr>cells = replicate 11 (Used Green) @ replicate 19 Free, label = ''37.5''\<rparr>"
    by (simp only: q c l) simp
  show ?thesis using h x(2) d by (intro conjI)
qed

text \<open>
  C3 as stated fails where the rounded product reaches a multiple of 100 that the exact
  product stays below. The float nearest to \<open>10/3\<close> is \<open>13981013 / 2^22\<close>; times 30 it
  is \<open>100 - 5 / 2^21\<close>, which rounds to 100; the bar of width 30 shows one filled cell,
  and the floor of the exact \<open>percent * width / 100\<close> is 0.
\<close>

theorem drawProgressBar_filled_cells_counterexample:
  "is_binary32 (Finite False (13981013 / 4194304)) \<and>
   f32_ge (Finite False (13981013 / 4194304)) (Finite False 0) \<and>
   f32_ge (Finite False 100) (Finite False (13981013 / 4194304)) \<and>
   \<lfloor>(13981013 / 4194304 :: rat) * 30 / 100\<rfloor> = 0 \<and>
   f32_mul (Finite False (13981013 / 4194304)) (f32_of_int 30) = Finite False 100 \<and>
   drawProgressBar (Finite False (13981013 / 4194304)) 30 False =
     Inr \<lparr>cells = Used Green # replicate 29 Free, label = ''3.3''\<rparr>"
  by code_simp





subsection \<open>The CPU usage\<close>

lemma sint64_abs_le: "\<bar>sint (w :: 64 word)\<bar> \<le> 2 ^ 64"
proof -
  have "- (2 ^ 63) \<le> sint w" "sint w < 2 ^ 63"
    using sint_range_size [of w] by (simp_all add: word_size)
  then show ?thesis by (simp add: abs_le_iff)
qed


lemma showCPU_usage:
  "fst (showCPU st x) =
     (if deltaTotal st x \<noteq> 0
      then f32_div (f32_mul (Finite False 100) (f32_of_long (deltaTotal st x - deltaIdle st x)))
             (f32_of_long (deltaTotal st x))
      else Finite False 0)"
  by (simp add: showCPU_def)

lemma showCPU_state:
  "snd (showCPU st x) = \<lparr>prevIdle = idleTime x, prevTotal = totalTime x\<rparr>"
  by (simp add: showCPU_def)

lemma showCPU_finite: "is_finite (fst (showCPU st x))"
  using percent_finite_iff [OF sint64_abs_le sint64_abs_le,
      of "deltaTotal st x - deltaIdle st x" "deltaTotal st x"]
  by (simp add: showCPU_usage f32_of_long_def signed_eq_0_iff is_finite_def)

text \<open>
  C1. For every sample \<open>x\<close> and every state \<open>st\<close> of the statics: \<open>idleTime\<close> is
  \<open>idle + iowait\<close>, \<open>totalTime\<close> is the sum of the seven counters, the deltas are taken
  against \<open>prevIdle\<close> and \<open>prevTotal\<close>, which the call then sets to the \<open>idleTime\<close> and
  \<open>totalTime\<close> of \<open>x\<close> for the next sample. The usage is 0 when \<open>deltaTotal\<close> is 0 and
  otherwise \<open>100 * (deltaTotal - deltaIdle) / deltaTotal\<close> in binary32, always a finite
  value; when the deltas are small enough for the conversions and the product to be exact
  (\<open>100 * |deltaTotal - deltaIdle| \<le> 2^24\<close> and \<open>|deltaTotal| \<le> 2^24\<close>) it is the exact
  quotient rounded once to the nearest float. With (idle 100, total 200) before and
  (idle 150, total 400) now the usage is exactly 75.
\<close>

theorem showCPU_usage_formula:
  "idleTime x = idle x + iowait x \<and>
   totalTime x = user x + nice x + system x + idle x + iowait x + irq x + softirq x \<and>
   deltaIdle st x = idleTime x - prevIdle st \<and>
   deltaTotal st x = totalTime x - prevTotal st \<and>
   snd (showCPU st x) = \<lparr>prevIdle = idleTime x, prevTotal = totalTime x\<rparr> \<and>
   cpu_run st [x, x'] =
     [fst (showCPU st x), fst (showCPU \<lparr>prevIdle = idleTime x, prevTotal = totalTime x\<rparr> x')] \<and>
   is_finite (fst (showCPU st x)) \<and>
   (deltaTotal st x = 0 \<longrightarrow> fst (showCPU st x) = Finite False 0) \<and>
   (deltaTotal st x \<noteq> 0 \<longrightarrow>
      fst (showCPU st x) =
        f32_div (f32_mul (Finite False 100) (f32_of_long (deltaTotal st x - deltaIdle st x)))
          (f32_of_long (deltaTotal st x))) \<and>
   (deltaTotal st x \<noteq> 0 \<and> 100 * \<bar>sint (deltaTotal st x - deltaIdle st x)\<bar> \<le> 2 ^ 24 \<and>
    \<bar>sint (deltaTotal st x)\<bar> \<le> 2 ^ 24 \<longrightarrow>
      fst (showCPU st x) =
        f32_round ((sint (deltaTotal st x - deltaIdle st x) < 0) \<noteq> (sint (deltaTotal st x) < 0))
          (100 * of_int \<bar>sint (deltaTotal st x - deltaIdle st x)\<bar> /
           of_int \<bar>sint (deltaTotal st x)\<bar>)) \<and>
   (prevIdle st = 100 \<and> prevTotal st = 200 \<and> idleTime x = 150 \<and> totalTime x = 400 \<longrightarrow>
      fst (showCPU st x) = Finite False 75)"
proof -
  have t: "totalTime x = user x + nice x + system x + idle x + iowait x + irq x + softirq x"
    by (simp add: totalTime_def idleTime_def add.assoc)
  have r: "cpu_run st [x, x'] =
     [fst (showCPU st x), fst (showCPU \<lparr>prevIdle = idleTime x, prevTotal = totalTime x\<rparr> x')]"
    by (simp add: showCPU_state)
  have e: "fst (showCPU st x) =
        f32_round ((sint (deltaTotal st x - deltaIdle st x) < 0) \<noteq> (sint (deltaTotal st x) < 0))
          (100 * of_int \<bar>sint (deltaTotal st x - deltaIdle st x)\<bar> /
           of_int \<bar>sint (deltaTotal st x)\<bar>)"
    if "deltaTotal st x \<noteq> 0" "100 * \<bar>sint (deltaTotal st x - deltaIdle st x)\<bar> \<le> 2 ^ 24"
      "\<bar>sint (deltaTotal st x)\<bar> \<le> 2 ^ 24"
    using percent_exact [OF that(2,3)] that(1)
    by (simp add: showCPU_usage f32_of_long_def signed_eq_0_iff)
  have c: "f32_div (f32_mul (Finite False 100) (f32_of_long (400 - 200 - (150 - 100))))
      (f32_of_long (400 - 200)) = Finite False 75"
    by code_simp
  have g: "fst (showCPU st x) = Finite False 75"
    if "prevIdle st = 100" "prevTotal st = 200" "idleTime x = 150" "totalTime x = 400"
    using c by (simp add: showCPU_usage deltaIdle_def deltaTotal_def that)
  show ?thesis
    using t r e g showCPU_finite [of st x]
    by (simp only: idleTime_def deltaIdle_def deltaTotal_def showCPU_state showCPU_usage)
       (simp add: idleTime_def deltaIdle_def deltaTotal_def)
qed

theorem showCPU_usage_formula_witness:
  "idleTime sample_a = 100 \<and> totalTime sample_a = 200 \<and>
   idleTime sample_b = 150 \<and> totalTime sample_b = 400 \<and>
   cpu_run cpu_start [sample_a, sample_b] = [Finite False 50, Finite False 75] \<and>
   deltaTotal \<lparr>prevIdle = 100, prevTotal = 200\<rparr> sample_b = 200 \<and>
   deltaIdle \<lparr>prevIdle = 100, prevTotal = 200\<rparr> sample_b = 50 \<and>
   fst (showCPU \<lparr>prevIdle = 100, prevTotal = 200\<rparr> sample_b) = f32_round False (100 * 150 / 200) \<and>
   deltaTotal \<lparr>prevIdle = 150, prevTotal = 400\<rparr> sample_b = 0 \<and>
   fst (showCPU \<lparr>prevIdle = 150, prevTotal = 400\<rparr> sample_b) = Finite False 0"
proof -
  have a: "idleTime sample_a = 100" "totalTime sample_a = 200"
    by (simp_all add: sample_a_def idleTime_def totalTime_def)
  have b: "idleTime sample_b = 150" "totalTime sample_b = 400"
    by (simp_all add: sample_b_def idleTime_def totalTime_def)
  have d: "deltaTotal \<lparr>prevIdle = 100, prevTotal = 200\<rparr> sample_b = 200"
    "deltaIdle \<lparr>prevIdle = 100, prevTotal = 200\<rparr> sample_b = 50"
    "deltaTotal \<lparr>prevIdle = 150, prevTotal = 400\<rparr> sample_b = 0"
    by (simp_all add: deltaTotal_def deltaIdle_def b)
  have r: "f32_round False (100 * 150 / 200) = Finite False 75" by code_simp
  have u: "fst (showCPU cpu_start sample_a) = Finite False 50" by code_simp
  have v: "fst (showCPU \<lparr>prevIdle = 100, prevTotal = 200\<rparr> sample_b) = Finite False 75"
    using showCPU_usage_formula [of sample_b "\<lparr>prevIdle = 100, prevTotal = 200\<rparr>" sample_b]
    by (simp add: b)
  have z: "fst (showCPU \<lparr>prevIdle = 150, prevTotal = 400\<rparr> sample_b) = Finite False 0"
    using showCPU_usage_formula [of sample_b "\<lparr>prevIdle = 150, prevTotal = 400\<rparr>" sample_b]
    by (simp add: d)
  have c: "cpu_run cpu_start [sample_a, sample_b] = [Finite False 50, Finite False 75]"
    using showCPU_usage_formula [of sample_a cpu_start sample_b]
    by (simp add: a u v)
  show ?thesis by (simp only: a b c d r v z)
qed

text \<open>
  C2, as amended. On the first sample the statics are zero, so the deltas are the
  absolute counters: the usage is 0 when \<open>totalTime\<close> is 0 and otherwise
  \<open>100 * (totalTime - idleTime) / totalTime\<close> in binary32. It is strictly positive as
  soon as some time was counted outside idle and iowait, and zero when all the time
  counted was idle.
\<close>

theorem showCPU_first_sample:
  "deltaIdle cpu_start x = idleTime x \<and> deltaTotal cpu_start x = totalTime x \<and>
   (totalTime x = 0 \<longrightarrow> fst (showCPU cpu_start x) = Finite False 0) \<and>
   (totalTime x \<noteq> 0 \<longrightarrow>
      fst (showCPU cpu_start x) =
        f32_div (f32_mul (Finite False 100) (f32_of_long (totalTime x - idleTime x)))
          (f32_of_long (totalTime x))) \<and>
   (0 < sint (totalTime x) \<and> 0 < sint (totalTime x - idleTime x) \<longrightarrow>
      (\<exists>y. fst (showCPU cpu_start x) = Finite False y \<and> 0 < y)) \<and>
   (totalTime x \<noteq> 0 \<and> totalTime x = idleTime x \<longrightarrow>
      fst (showCPU cpu_start x) = Finite (sint (totalTime x) < 0) 0)"
proof -
  have d: "deltaIdle cpu_start x = idleTime x" "deltaTotal cpu_start x = totalTime x"
    by (simp_all add: deltaIdle_def deltaTotal_def cpu_start_def)
  have p: "\<exists>y. fst (showCPU cpu_start x) = Finite False y \<and> 0 < y"
    if "0 < sint (totalTime x)" "0 < sint (totalTime x - idleTime x)"
  proof -
    have "sint (totalTime x) \<le> 2 ^ 64" "sint (totalTime x - idleTime x) \<le> 2 ^ 64"
      using sint64_abs_le [of "totalTime x"] sint64_abs_le [of "totalTime x - idleTime x"]
      by simp_all
    from percent_positive [OF that(2) this(2) that(1) this(1)] that(1)
    show ?thesis by (auto simp: showCPU_usage d f32_of_long_def)
  qed
  have z: "fst (showCPU cpu_start x) = Finite (sint (totalTime x) < 0) 0"
    if "totalTime x \<noteq> 0" "totalTime x = idleTime x"
  proof -
    have "sint (totalTime x) \<noteq> 0" using that(1) by (simp add: signed_eq_0_iff)
    from percent_zero [OF this sint64_abs_le] that show ?thesis
      by (simp add: showCPU_usage d f32_of_long_def)
  qed
  show ?thesis using p z by (simp add: d showCPU_usage)
qed

text \<open>
  C2 as stated fails for a machine that has been busy half of the time since it started:
  the first reading is 50 percent, not 0.
\<close>

theorem showCPU_first_sample_counterexample:
  "prevIdle cpu_start = 0 \<and> prevTotal cpu_start = 0 \<and>
   fst (showCPU cpu_start sample_c) = Finite False 50 \<and>
   fst (showCPU cpu_start sample_c) \<noteq> Finite False 0 \<and>
   fixed1 (fst (showCPU cpu_start sample_c)) = ''50.0''"
  by code_simp

theorem showCPU_first_sample_witness:
  "sint (totalTime sample_c) = 200 \<and> sint (totalTime sample_c - idleTime sample_c) = 100 \<and>
   fst (showCPU cpu_start sample_c) = Finite False 50 \<and>
   totalTime sample_idle = idleTime sample_idle \<and> totalTime sample_idle \<noteq> 0 \<and>
   fst (showCPU cpu_start sample_idle) = Finite False 0 \<and>
   totalTime sample_zero = 0 \<and>
   fst (showCPU cpu_start sample_zero) = Finite False 0"
proof -
  have c: "totalTime sample_c = 200" "idleTime sample_c = 100"
    by (simp_all add: sample_c_def idleTime_def totalTime_def)
  have i: "totalTime sample_idle = 100" "idleTime sample_idle = 100"
    by (simp_all add: sample_idle_def idleTime_def totalTime_def)
  have z: "totalTime sample_zero = 0"
    by (simp add: sample_zero_def idleTime_def totalTime_def)
  have v: "f32_div (f32_mul (Finite False 100) (f32_of_long 100)) (f32_of_long 200) =
      Finite False 50"
    by code_simp
  have 1: "fst (showCPU cpu_start sample_c) = Finite False 50"
    using showCPU_first_sample [of sample_c] by (simp add: c v)
  have 2: "fst (showCPU cpu_start sample_idle) = Finite False 0"
    using showCPU_first_sample [of sample_idle] by (auto simp: i)
  have 3: "fst (showCPU cpu_start sample_zero) = Finite False 0"
    using showCPU_first_sample [of sample_zero] by (simp add: z)
  show ?thesis by (simp add: c i z 1 2 3)
qed


subsection \<open>The memory and disk percentages\<close>



lemma f32_of_int_40: "f32_of_int 40 = Finite False 40"
  using f32_round_int_exact [of 40 False] by (simp add: f32_of_int_def)





subsection \<open>The disk sampler\<close>






subsection \<open>The battery sampler\<close>

lemma readBattery_available_iff:
  "available (readBattery fs) \<longleftrightarrow>
     open_file fs ''/sys/class/power_supply/BAT0/capacity'' \<noteq> None \<and>
     open_file fs ''/sys/class/power_supply/BAT0/status'' \<noteq> None"
  by (auto simp: readBattery_def Let_def split: option.splits)

lemma readBattery_unavailable:
  "\<not> available (readBattery fs) \<Longrightarrow>
     readBattery fs = \<lparr>capacity = - 1, status = ''Unknown'', available = False\<rparr>"
  by (auto simp: readBattery_def Let_def split: option.splits)

text \<open>
  C7. \<open>readBattery\<close> reports \<open>available\<close> exactly when both
  \<open>/sys/class/power_supply/BAT0/capacity\<close> and \<open>/sys/class/power_supply/BAT0/status\<close>
  open. When it does not, the record is the initial one and \<open>showBattery\<close> prints the
  title and the line \<open>Battery info not available\<close>, with no status and no bar; when it
  does, \<open>showBattery\<close> prints the status and the bar of the capacity.
\<close>

theorem readBattery_available:
  "(available (readBattery fs) \<longleftrightarrow>
      open_file fs ''/sys/class/power_supply/BAT0/capacity'' \<noteq> None \<and>
      open_file fs ''/sys/class/power_supply/BAT0/status'' \<noteq> None) \<and>
   (\<not> available (readBattery fs) \<longrightarrow>
      readBattery fs = \<lparr>capacity = - 1, status = ''Unknown'', available = False\<rparr> \<and>
      showBattery fs = Inr (drawTitle ''Battery'' @ ''Battery info not available'' @ [NL, NL])) \<and>
   (available (readBattery fs) \<longrightarrow>
      showBattery fs =
        (case drawProgressBar (f32_of_int (capacity (readBattery fs))) 40 True of
           Inl e \<Rightarrow> Inl e
         | Inr b \<Rightarrow>
             Inr (drawTitle ''Battery'' @ status (readBattery fs) @ [NL] @ render_bar b @
                  [NL, NL])))"
  using readBattery_available_iff [of fs] readBattery_unavailable [of fs]
  by (simp add: showBattery_def Let_def)

theorem readBattery_available_witness:
  "\<not> available (readBattery fs_without_battery) \<and>
   showBattery fs_without_battery =
     Inr (drawTitle ''Battery'' @ ''Battery info not available'' @ [NL, NL]) \<and>
   available (readBattery fs_with_battery) \<and>
   showBattery fs_with_battery =
     Inr (drawTitle ''Battery'' @ ''Charging'' @ [NL] @
          render_bar \<lparr>cells = bar_loop Green 32 40 0, label = ''80.0''\<rparr> @ [NL, NL])"
proof -
  have a: "open_file fs_without_battery ''/sys/class/power_supply/BAT0/capacity'' = None"
    by (simp add: fs_without_battery_def)
  have b: "readBattery fs_with_battery =
      \<lparr>capacity = 80, status = ''Charging'', available = True\<rparr>"
    by (simp add: fs_with_battery_def readBattery_def)
  have p: "bar_pos (f32_of_int 80) 40 = Some 32" by code_simp
  have c: "bar_color (f32_of_int 80) True = Green" by code_simp
  have l: "fixed1 (f32_of_int 80) = ''80.0''" by code_simp
  have d: "drawProgressBar (f32_of_int 80) 40 True =
      Inr \<lparr>cells = bar_loop Green 32 40 0, label = ''80.0''\<rparr>"
    by (simp add: drawProgressBar_def p c l)
  show ?thesis
    using readBattery_available [of fs_without_battery]
      readBattery_available [of fs_with_battery] a
    by (simp add: b d)
qed


subsection \<open>The fan scan\<close>







subsection \<open>The input controller\<close>

lemma calls_snoc: "calls (es @ [e]) st = setNonBlocking e (calls es st)"
  by (simp add: calls_def)

lemma calls_all_disable:
  assumes "\<not> saved st" "True \<notin> set es"
  shows "calls es st = st"
  using assms
proof (induction es rule: rev_induct)
  case Nil
  then show ?case by (simp add: calls_def)
next
  case (snoc e es)
  then have "e = False" and "calls es st = st" by auto
  with snoc.prems show ?case by (simp add: calls_snoc setNonBlocking_def)
qed

lemma and_not_or_same: "(w OR m) AND NOT m = w AND NOT (m :: 32 word)"
  by (auto simp: bit_eq_iff bit_simps)

lemma and_not_same_iff: "w AND NOT m = w \<longleftrightarrow> w AND m = (0 :: 32 word)"
  by (auto simp: bit_eq_iff bit_simps)

lemma calls_invariant:
  assumes "\<not> saved st" "True \<in> set es"
  shows "saved (calls es st) \<and> oldt (calls es st) = attrs st \<and>
         fl_flags (calls es st) AND NOT O_NONBLOCK = fl_flags st AND NOT O_NONBLOCK"
  using assms
proof (induction es rule: rev_induct)
  case Nil
  then show ?case by simp
next
  case (snoc e es)
  show ?case
  proof (cases "True \<in> set es")
    case True
    with snoc show ?thesis
      by (cases e) (auto simp: calls_snoc setNonBlocking_def Let_def and_not_or_same and.assoc)
  next
    case False
    with snoc.prems have e: "e = True" and st: "calls es st = st"
      using calls_all_disable [of st es] by auto
    with snoc.prems show ?thesis
      by (simp add: calls_snoc setNonBlocking_def Let_def and_not_or_same)
  qed
qed

text \<open>
  C8, as amended. From a start where nothing is saved, after any sequence of calls: if
  none was \<open>enable(true)\<close> nothing has changed; otherwise the saved copy is the terminal
  attributes found at the first \<open>enable(true)\<close>, a further \<open>enable(true)\<close> leaves the
  copy as it is, and \<open>enable(false)\<close> sets the terminal attributes back to that copy
  exactly. The file status flags are not saved: \<open>enable(false)\<close> clears \<open>O_NONBLOCK\<close>
  and keeps the other flags, so the flags are the original ones exactly when
  \<open>O_NONBLOCK\<close> was clear at the start.
\<close>

theorem setNonBlocking_saved_once:
  assumes "\<not> saved st"
  shows "(True \<notin> set es \<longrightarrow> calls es st = st) \<and>
         (True \<in> set es \<longrightarrow>
            saved (calls es st) \<and> oldt (calls es st) = attrs st \<and>
            oldt (setNonBlocking True (calls es st)) = attrs st \<and>
            attrs (setNonBlocking False (calls es st)) = attrs st \<and>
            fl_flags (setNonBlocking False (calls es st)) = fl_flags st AND NOT O_NONBLOCK \<and>
            (fl_flags (setNonBlocking False (calls es st)) = fl_flags st \<longleftrightarrow>
               fl_flags st AND O_NONBLOCK = 0))"
  using calls_all_disable [OF assms, of es] calls_invariant [OF assms, of es]
  by (auto simp: setNonBlocking_def Let_def and_not_same_iff)

theorem setNonBlocking_saved_once_witness:
  "\<not> saved tty_blocking \<and> True \<in> set [False, True, True] \<and>
   attrs (calls [False, True, True] tty_blocking) \<noteq> cooked \<and>
   oldt (calls [False, True, True] tty_blocking) = cooked \<and>
   attrs (setNonBlocking False (calls [False, True, True] tty_blocking)) = cooked \<and>
   fl_flags (setNonBlocking False (calls [False, True, True] tty_blocking)) = 0x2 \<and>
   calls [False, False] tty_blocking = tty_blocking"
proof -
  have s: "\<not> saved tty_blocking" by (simp add: tty_blocking_def)
  have a: "attrs tty_blocking = cooked" "fl_flags tty_blocking = 0x2"
    by (simp_all add: tty_blocking_def)
  have r: "attrs (calls [False, True, True] tty_blocking) \<noteq> cooked"
    by (simp add: calls_def setNonBlocking_def tty_blocking_def cooked_def ICANON_def ECHO_def)
  show ?thesis
    using setNonBlocking_saved_once [OF s, of "[False, True, True]"]
      setNonBlocking_saved_once [OF s, of "[False, False]"] a r s
    by (simp add: O_NONBLOCK_def)
qed

text \<open>
  C8 as stated fails on the flags: with \<open>O_NONBLOCK\<close> set on standard input before the
  program starts, \<open>enable(true)\<close> followed by \<open>enable(false)\<close> leaves it cleared.
\<close>

theorem setNonBlocking_flags_counterexample:
  "\<not> saved tty_nonblocking \<and>
   fl_flags tty_nonblocking = 0x802 \<and>
   fl_flags (calls [True, False] tty_nonblocking) = 0x2 \<and>
   fl_flags (calls [True, False] tty_nonblocking) \<noteq> fl_flags tty_nonblocking \<and>
   attrs (calls [True, False] tty_nonblocking) = attrs tty_nonblocking"
  by (simp add: calls_def setNonBlocking_def tty_nonblocking_def tty_blocking_def
      O_NONBLOCK_def)

end
